theory Spec2Isabelle
  imports Main
begin

section \<open>Data model\<close>

text \<open>
  The input records of \<^verbatim>\<open>Tree.__init__\<close> are dictionaries with the keys
  \<^verbatim>\<open>id\<close>, \<^verbatim>\<open>title\<close> and \<^verbatim>\<open>parent_id\<close>; \<^verbatim>\<open>None\<close> for the
  parent is \<open>None\<close> here. The field names carry a prefix because \<open>id\<close> is a constant
  of HOL. The id is an integer, as \<^verbatim>\<open>Node.__init__\<close> declares it; a record without
  the key \<^verbatim>\<open>id\<close> is outside the model.
\<close>

record Item =
  item_id :: int
  item_title :: string
  item_parent_id :: "int option"

text \<open>
  \<^verbatim>\<open>class Node\<close>. Objects live in an arena: a \<open>Node list\<close> in creation order, which is
  also the order of \<^verbatim>\<open>Tree.nodes\<close>, and a reference to a node is its index there.
  \<open>weak_parent\<close> is the attribute \<^verbatim>\<open>_parent\<close>: \<open>None\<close>, or the weak reference to a
  node. The tree holds every node in \<^verbatim>\<open>self.nodes\<close>, so a weak reference never
  outlives its referent and the property \<^verbatim>\<open>parent\<close> returns the referent.
  The annotations \<^verbatim>\<open>node_: Node\<close> in the class body are taken as not evaluated
  when the class is created.
\<close>

record Node =
  node_id :: int
  title :: string
  parent_id :: "int option"
  weak_parent :: "nat option"
  children :: "nat list"

definition parent :: "Node list \<Rightarrow> nat \<Rightarrow> nat option" where
  "parent h n = weak_parent (h ! n)"

section \<open>Construction\<close>

definition new_Node :: "Item \<Rightarrow> Node" where
  "new_Node item =
     \<lparr>node_id = item_id item, title = item_title item, parent_id = item_parent_id item,
      weak_parent = None, children = []\<rparr>"

definition create_node :: "Node list \<Rightarrow> Item \<Rightarrow> Node list" where
  "create_node nodes item = nodes @ [new_Node item]"

text \<open>\<^verbatim>\<open>n.add_child(c)\<close>: append to \<^verbatim>\<open>n.children\<close>, then set \<^verbatim>\<open>c.parent\<close>.\<close>

definition add_child :: "Node list \<Rightarrow> nat \<Rightarrow> nat \<Rightarrow> Node list" where
  "add_child h n c =
     (let h1 = h[n := (h ! n)\<lparr>children := children (h ! n) @ [c]\<rparr>]
      in h1[c := (h1 ! c)\<lparr>weak_parent := Some n\<rparr>])"

text \<open>
  The inner loop of \<^verbatim>\<open>populate_children\<close> over the nodes the filter lets through.
  The filter reads \<^verbatim>\<open>parent_id\<close> and \<^verbatim>\<open>id\<close> only, which \<^verbatim>\<open>add_child\<close> never
  writes, and runs over \<^verbatim>\<open>self.nodes\<close>, which keeps its length.
\<close>

definition matching :: "Node list \<Rightarrow> nat \<Rightarrow> nat list" where
  "matching h n = filter (\<lambda>x. parent_id (h ! x) = Some (node_id (h ! n))) [0..<length h]"

definition populate_node :: "nat \<Rightarrow> Node list \<Rightarrow> Node list" where
  "populate_node n h = fold (\<lambda>c h'. add_child h' n c) (matching h n) h"

definition populate_children :: "Node list \<Rightarrow> Node list" where
  "populate_children h = fold populate_node [0..<length h] h"

definition Tree :: "Item list \<Rightarrow> Node list" where
  "Tree items = populate_children (fold (\<lambda>item nodes. create_node nodes item) items [])"

text \<open>
  The input conditions of the specification: the ids are unique, and every parent id
  that is not null is the id of some record.
\<close>

definition unique_ids :: "Item list \<Rightarrow> bool" where
  "unique_ids items = distinct (map item_id items)"

definition no_dangling :: "Item list \<Rightarrow> bool" where
  "no_dangling items =
     (\<forall>r \<in> set items.
        case item_parent_id r of None \<Rightarrow> True | Some p \<Rightarrow> p \<in> set (map item_id items))"

section \<open>Traversal queries\<close>

definition Tree_children :: "Node list \<Rightarrow> nat \<Rightarrow> nat list" where
  "Tree_children h n = children (h ! n)"

text \<open>
  \<^verbatim>\<open>Tree.descendants\<close>. The stack holds references to list objects: the copy made in
  the first line, or the \<^verbatim>\<open>children\<close> list of a node, which is the node's own list
  and not a copy. The head of the HOL list is the top \<^verbatim>\<open>stack[-1]\<close>.
\<close>

datatype lref = Copy | Field nat

text \<open>
  \<open>contents\<close> reads the list a reference denotes. \<^verbatim>\<open>children.pop(0)\<close> leaves the
  tail \<open>xs\<close> in that list: in the copy (\<open>copy_after_pop\<close>), or in the node's field
  (\<open>heap_after_pop\<close>). \<open>weight\<close> counts the entries of all these lists; every pop
  takes one away, which is why the loop ends.
\<close>

fun contents :: "Node list \<Rightarrow> nat list \<Rightarrow> lref \<Rightarrow> nat list" where
  "contents h cp Copy = cp"
| "contents h cp (Field k) = children (h ! k)"

fun heap_after_pop :: "Node list \<Rightarrow> lref \<Rightarrow> nat list \<Rightarrow> Node list" where
  "heap_after_pop h Copy xs = h"
| "heap_after_pop h (Field k) xs = h[k := (h ! k)\<lparr>children := xs\<rparr>]"

fun copy_after_pop :: "nat list \<Rightarrow> lref \<Rightarrow> nat list \<Rightarrow> nat list" where
  "copy_after_pop cp Copy xs = xs"
| "copy_after_pop cp (Field k) xs = cp"

fun valid_ref :: "Node list \<Rightarrow> lref \<Rightarrow> bool" where
  "valid_ref h Copy = True"
| "valid_ref h (Field k) = (k < length h)"

definition weight :: "Node list \<Rightarrow> nat list \<Rightarrow> nat" where
  "weight h cp = sum_list (map (\<lambda>n. length (children n)) h) + length cp"

text \<open>
  The generator run to its end: the nodes yielded, in order, and the arena it leaves.
  \<open>None\<close> stands for a reference outside the arena, which no Python object is.
\<close>

function descendants_loop ::
  "Node list \<Rightarrow> nat list \<Rightarrow> lref list \<Rightarrow> (nat list \<times> Node list) option" where
  "descendants_loop h cp [] = Some ([], h)"
| "descendants_loop h cp (r # rest) =
     (if \<not> valid_ref h r then None
      else case contents h cp r of
        [] \<Rightarrow> descendants_loop h cp rest
      | child # xs \<Rightarrow>
          if \<not> child < length h then None
          else map_option (\<lambda>(ys, hf). (child # ys, hf))
                 (descendants_loop (heap_after_pop h r xs) (copy_after_pop cp r xs)
                    (if children (heap_after_pop h r xs ! child) \<noteq> []
                     then Field child # r # rest else r # rest)))"
  by pat_completeness auto

lemma children_sum_update_less:
  assumes "k < length h" and "children (h ! k) = c # xs"
  shows "sum_list (map (\<lambda>n. length (children n)) (h[k := (h ! k)\<lparr>children := xs\<rparr>]))
       < sum_list (map (\<lambda>n. length (children n)) h)"
proof -
  have "sum_list (map (\<lambda>n. length (children n)) (h[k := (h ! k)\<lparr>children := xs\<rparr>]))
      = sum_list ((map (\<lambda>n. length (children n)) h)[k := length xs])"
    by (simp add: map_update)
  also have "\<dots> = sum_list (map (\<lambda>n. length (children n)) h) + length xs
                    - length (children (h ! k))"
    using assms by (simp add: sum_list_update)
  also have "\<dots> < sum_list (map (\<lambda>n. length (children n)) h)"
  proof -
    have "length (children (h ! k)) \<in> set (map (\<lambda>n. length (children n)) h)"
      using assms(1) by force
    then have "length (children (h ! k)) \<le> sum_list (map (\<lambda>n. length (children n)) h)"
      by (simp add: member_le_sum_list)
    then show ?thesis using assms(2) by simp
  qed
  finally show ?thesis .
qed

lemma weight_pop_less:
  assumes "valid_ref h r" and "contents h cp r = c # xs"
  shows "weight (heap_after_pop h r xs) (copy_after_pop cp r xs) < weight h cp"
proof (cases r)
  case Copy
  then show ?thesis using assms by (simp add: weight_def)
next
  case (Field k)
  then show ?thesis using assms children_sum_update_less[of k h c xs] by (simp add: weight_def)
qed

termination descendants_loop
  apply (relation "measure (\<lambda>(h, cp, st). 2 * weight h cp + length st)")
    apply simp
   apply simp
  subgoal for h cp r rest child xs
    using weight_pop_less[of h r cp child xs] by simp
  done

text \<open>\<^verbatim>\<open>list(Tree.descendants(n))\<close>: the first line copies \<^verbatim>\<open>n.children\<close>.\<close>

definition descendants :: "Node list \<Rightarrow> nat \<Rightarrow> (nat list \<times> Node list) option" where
  "descendants h n = descendants_loop h (children (h ! n)) [Copy]"

text \<open>
  \<^verbatim>\<open>Tree.ancestors\<close>. The loop condition \<^verbatim>\<open>while node_\<close> is the truth value of
  \<^verbatim>\<open>node_\<close>: false for \<^verbatim>\<open>None\<close>, and for a \<^verbatim>\<open>Node\<close>, which defines
  \<^verbatim>\<open>__len__\<close> and no \<^verbatim>\<open>__bool__\<close>, false when \<^verbatim>\<open>len(node_.children)\<close> is 0.
  The body inserts \<^verbatim>\<open>node\<close>, not \<^verbatim>\<open>node_\<close>: a name of the module's globals, bound
  only by the loop \<^verbatim>\<open>for node in tree.nodes\<close> of the script part. The parameter \<open>g\<close>
  is that binding: \<open>None\<close> when the name is unbound (the module imported), and then
  reading it raises \<^verbatim>\<open>NameError\<close>. The loop need not end, so not returning is \<open>None\<close>.
\<close>

datatype error = NameError

partial_function (option) ancestors_loop ::
  "Node list \<Rightarrow> nat option \<Rightarrow> nat option \<Rightarrow> nat list \<Rightarrow> (error + nat list) option" where
  "ancestors_loop h g cur parents =
     (case cur of
        None \<Rightarrow> Some (Inr parents)
      | Some c \<Rightarrow>
          if length (children (h ! c)) = 0 then Some (Inr parents)
          else (case g of
                  None \<Rightarrow> Some (Inl NameError)
                | Some v \<Rightarrow> ancestors_loop h g (parent h c) (v # parents)))"

declare ancestors_loop.simps [code]

definition ancestors :: "Node list \<Rightarrow> nat option \<Rightarrow> nat \<Rightarrow> (error + nat list) option" where
  "ancestors h g n = ancestors_loop h g (Some n) []"

text \<open>\<^verbatim>\<open>Tree.root\<close> returns \<^verbatim>\<open>ancestors[0]\<close>, or the empty list \<^verbatim>\<open>[]\<close>.\<close>

datatype root_value = RNode nat | REmptyList

definition root :: "Node list \<Rightarrow> nat option \<Rightarrow> nat \<Rightarrow> (error + root_value) option" where
  "root h g n =
     (case ancestors h g n of
        None \<Rightarrow> None
      | Some (Inl e) \<Rightarrow> Some (Inl e)
      | Some (Inr []) \<Rightarrow> Some (Inr REmptyList)
      | Some (Inr (a # as)) \<Rightarrow> Some (Inr (RNode a)))"

section \<open>The sample\<close>

definition data :: "Item list" where
  "data =
    [\<lparr>item_id = 1, item_title = ''Category #1'', item_parent_id = None\<rparr>,
     \<lparr>item_id = 2, item_title = ''Category #2'', item_parent_id = None\<rparr>,
     \<lparr>item_id = 3, item_title = ''Category #3'', item_parent_id = Some 1\<rparr>,
     \<lparr>item_id = 4, item_title = ''Category #4'', item_parent_id = Some 2\<rparr>,
     \<lparr>item_id = 5, item_title = ''Category #5'', item_parent_id = Some 3\<rparr>,
     \<lparr>item_id = 6, item_title = ''Category #6'', item_parent_id = Some 4\<rparr>,
     \<lparr>item_id = 7, item_title = ''Category #7'', item_parent_id = Some 6\<rparr>,
     \<lparr>item_id = 8, item_title = ''Category #8'', item_parent_id = Some 5\<rparr>,
     \<lparr>item_id = 9, item_title = ''Category #9'', item_parent_id = Some 5\<rparr>]"

definition tree :: "Node list" where
  "tree = Tree data"

text \<open>Two records, the second with a parent id that no record has.\<close>

definition orphan_items :: "Item list" where
  "orphan_items =
    [\<lparr>item_id = 1, item_title = ''a'', item_parent_id = None\<rparr>,
     \<lparr>item_id = 2, item_title = ''b'', item_parent_id = Some 7\<rparr>]"

section \<open>Well-formed input and reachability\<close>

text \<open>
  The child relation of an arena: \<open>(a, b)\<close> when \<open>b\<close> is in \<^verbatim>\<open>a.children\<close>.
\<close>

definition child_rel :: "Node list \<Rightarrow> (nat \<times> nat) set" where
  "child_rel h = {(a, b). a < length h \<and> b \<in> set (children (h ! a))}"

text \<open>
  Acyclic and free of dangling parent ids: from the parent id of every record, following
  parent ids reaches a record without parent in at most as many steps as there are
  records. \<open>climbs items k p\<close> follows at most \<open>k\<close> links from the parent id \<open>p\<close>.
\<close>

fun climbs :: "Item list \<Rightarrow> nat \<Rightarrow> int option \<Rightarrow> bool" where
  "climbs items k None = True"
| "climbs items 0 (Some p) = False"
| "climbs items (Suc k) (Some p) =
     (case find (\<lambda>r. item_id r = p) items of
        None \<Rightarrow> False
      | Some r \<Rightarrow> climbs items k (item_parent_id r))"

definition well_formed :: "Item list \<Rightarrow> bool" where
  "well_formed items \<longleftrightarrow>
     unique_ids items \<and> (\<forall>r \<in> set items. climbs items (length items) (item_parent_id r))"

section \<open>Subtrees of the arena as terms\<close>

text \<open>
  A proof instrument for the enumeration of descendants: \<open>rep h t\<close> holds when the
  term \<open>t\<close> spells out the subtree of the arena \<open>h\<close> under the node \<open>rt t\<close>;
  \<open>labels t\<close> lists its nodes in preorder; \<open>emptied S h\<close> is \<open>h\<close> with the
  \<^verbatim>\<open>children\<close> lists of the nodes in \<open>S\<close> emptied; and \<open>forest_run ts\<close> says what
  the loop of \<^verbatim>\<open>descendants\<close> does when the list on top of its stack holds the roots of
  the subtrees \<open>ts\<close>: it yields their nodes in preorder and goes on below with these
  nodes' lists, and the list itself, empty.
\<close>

datatype rtree = Nd nat "rtree list"

fun rt :: "rtree \<Rightarrow> nat" where
  "rt (Nd c ts) = c"

fun sub :: "rtree \<Rightarrow> rtree list" where
  "sub (Nd c ts) = ts"

fun labels :: "rtree \<Rightarrow> nat list" where
  "labels (Nd c ts) = c # concat (map labels ts)"

fun rep :: "Node list \<Rightarrow> rtree \<Rightarrow> bool" where
  "rep h (Nd c ts) = (c < length h \<and> children (h ! c) = map rt ts \<and> (\<forall>t \<in> set ts. rep h t))"

definition emptied :: "nat set \<Rightarrow> Node list \<Rightarrow> Node list" where
  "emptied S h = map (\<lambda>i. if i \<in> S then (h ! i)\<lparr>children := []\<rparr> else h ! i) [0..<length h]"

definition forest_run :: "rtree list \<Rightarrow> bool" where
  "forest_run ts \<longleftrightarrow>
     (\<forall>h cp r rest.
        valid_ref h r \<longrightarrow> contents h cp r = map rt ts \<longrightarrow> (\<forall>t \<in> set ts. rep h t) \<longrightarrow>
        distinct (concat (map labels ts)) \<longrightarrow> r \<notin> Field ` set (concat (map labels ts)) \<longrightarrow>
        descendants_loop h cp (r # rest)
          = map_option (\<lambda>(ys, hf). (concat (map labels ts) @ ys, hf))
              (descendants_loop (emptied (set (concat (map labels ts))) (heap_after_pop h r []))
                 (copy_after_pop cp r []) rest))"

section \<open>What the construction establishes\<close>

lemma fold_create_node:
  "fold (\<lambda>item nodes. create_node nodes item) items acc = acc @ map new_Node items"
  by (induction items arbitrary: acc) (simp_all add: create_node_def)

lemma add_child_length [simp]: "length (add_child h n c) = length h"
  by (simp add: add_child_def Let_def)

lemma nth_update_if: "xs[k := v] ! i = (if i = k \<and> k < length xs then v else xs ! i)"
  by (cases "k < length xs") (simp_all add: nth_list_update list_update_beyond)

lemma add_child_nth:
  "add_child h n c ! i =
     (if i = c \<and> c < length h
      then (if c = n then (h ! n)\<lparr>children := children (h ! n) @ [c], weak_parent := Some n\<rparr>
            else (h ! c)\<lparr>weak_parent := Some n\<rparr>)
      else if i = n \<and> n < length h then (h ! n)\<lparr>children := children (h ! n) @ [c]\<rparr>
      else h ! i)"
  by (simp add: add_child_def Let_def nth_update_if)

lemma add_child_static:
  "map node_id (add_child h n c) = map node_id h"
  "map parent_id (add_child h n c) = map parent_id h"
  "map title (add_child h n c) = map title h"
  by (rule nth_equalityI; simp add: add_child_nth)+

lemma add_child_children:
  "n < length h \<Longrightarrow> i < length h \<Longrightarrow>
   children (add_child h n c ! i) = (if i = n then children (h ! i) @ [c] else children (h ! i))"
  by (simp add: add_child_nth)

lemma add_child_weak_parent:
  "c < length h \<Longrightarrow> i < length h \<Longrightarrow>
   weak_parent (add_child h n c ! i) = (if i = c then Some n else weak_parent (h ! i))"
  by (simp add: add_child_nth)

lemma matching_cong:
  assumes "map node_id h' = map node_id h" and "map parent_id h' = map parent_id h"
    and "n < length h"
  shows "matching h' n = matching h n"
proof -
  have len: "length h' = length h" using assms(1) by (metis length_map)
  have a: "node_id (h' ! x) = node_id (h ! x)" if "x < length h" for x
    using that len assms(1) by (metis nth_map)
  have b: "parent_id (h' ! x) = parent_id (h ! x)" if "x < length h" for x
    using that len assms(2) by (metis nth_map)
  show ?thesis
    unfolding matching_def len using a b assms(3) by (auto intro!: filter_cong)
qed

lemma matching_bound: "c \<in> set (matching h n) \<Longrightarrow> c < length h"
  by (simp add: matching_def)

lemma add_children_static:
  "length (fold (\<lambda>c h'. add_child h' n c) cs h) = length h"
  "map node_id (fold (\<lambda>c h'. add_child h' n c) cs h) = map node_id h"
  "map parent_id (fold (\<lambda>c h'. add_child h' n c) cs h) = map parent_id h"
  "map title (fold (\<lambda>c h'. add_child h' n c) cs h) = map title h"
  by (induction cs arbitrary: h) (simp_all add: add_child_static)

lemma add_children_children:
  "n < length h \<Longrightarrow> i < length h \<Longrightarrow>
   children (fold (\<lambda>c h'. add_child h' n c) cs h ! i)
     = (if i = n then children (h ! i) @ cs else children (h ! i))"
  by (induction cs arbitrary: h) (simp_all add: add_child_children)

lemma add_children_weak_parent:
  "\<forall>c \<in> set cs. c < length h \<Longrightarrow> i < length h \<Longrightarrow>
   weak_parent (fold (\<lambda>c h'. add_child h' n c) cs h ! i)
     = (if i \<in> set cs then Some n else weak_parent (h ! i))"
  by (induction cs arbitrary: h) (auto simp: add_child_weak_parent)

lemma populate_node_static:
  "length (populate_node n h) = length h"
  "map node_id (populate_node n h) = map node_id h"
  "map parent_id (populate_node n h) = map parent_id h"
  "map title (populate_node n h) = map title h"
  by (simp_all add: populate_node_def add_children_static)

lemma populate_node_children:
  "n < length h \<Longrightarrow> i < length h \<Longrightarrow>
   children (populate_node n h ! i)
     = (if i = n then children (h ! i) @ matching h n else children (h ! i))"
  by (simp add: populate_node_def add_children_children)

lemma populate_node_weak_parent:
  "i < length h \<Longrightarrow>
   weak_parent (populate_node n h ! i)
     = (if i \<in> set (matching h n) then Some n else weak_parent (h ! i))"
  by (simp add: populate_node_def add_children_weak_parent matching_bound)

lemma populate_nodes_static:
  "length (fold populate_node ns h) = length h"
  "map node_id (fold populate_node ns h) = map node_id h"
  "map parent_id (fold populate_node ns h) = map parent_id h"
  "map title (fold populate_node ns h) = map title h"
  by (induction ns arbitrary: h) (simp_all add: populate_node_static)

lemma populate_nodes_children:
  "distinct ns \<Longrightarrow> \<forall>n \<in> set ns. n < length h \<Longrightarrow> i < length h \<Longrightarrow>
   children (fold populate_node ns h ! i)
     = (if i \<in> set ns then children (h ! i) @ matching h i else children (h ! i))"
proof (induction ns arbitrary: h)
  case Nil
  then show ?case by simp
next
  case (Cons n ns)
  let ?h1 = "populate_node n h"
  have len: "length ?h1 = length h" by (rule populate_node_static)
  have m: "matching ?h1 i = matching h i"
    using Cons.prems(3) by (intro matching_cong populate_node_static)
  have n: "n < length h" "n \<notin> set ns" "distinct ns" "\<forall>k \<in> set ns. k < length ?h1"
    using Cons.prems(1,2) len by simp_all
  have step: "children (?h1 ! i) = (if i = n then children (h ! i) @ matching h n else children (h ! i))"
    using n(1) Cons.prems(3) by (rule populate_node_children)
  have "children (fold populate_node ns ?h1 ! i)
      = (if i \<in> set ns then children (?h1 ! i) @ matching ?h1 i else children (?h1 ! i))"
    using n(3,4) Cons.prems(3) len by (intro Cons.IH) simp_all
  then show ?case
    using n(2) step by (auto simp: m)
qed

lemma populate_nodes_weak_parent:
  "\<forall>n \<in> set ns. n < length h \<Longrightarrow> j < length h \<Longrightarrow>
   weak_parent (fold populate_node ns h ! j)
     = (case filter (\<lambda>n. j \<in> set (matching h n)) ns of
          [] \<Rightarrow> weak_parent (h ! j)
        | m # ms \<Rightarrow> Some (last (m # ms)))"
proof (induction ns arbitrary: h)
  case Nil
  then show ?case by simp
next
  case (Cons n ns)
  let ?h1 = "populate_node n h"
  have len: "length ?h1 = length h" by (rule populate_node_static)
  have m: "filter (\<lambda>k. j \<in> set (matching ?h1 k)) ns
         = filter (\<lambda>k. j \<in> set (matching h k)) ns"
  proof (rule filter_cong[OF refl])
    fix k assume "k \<in> set ns"
    then have "k < length h" using Cons.prems(1) by simp
    then have "matching ?h1 k = matching h k"
      by (intro matching_cong populate_node_static)
    then show "(j \<in> set (matching ?h1 k)) = (j \<in> set (matching h k))" by simp
  qed
  have step: "weak_parent (?h1 ! j)
       = (if j \<in> set (matching h n) then Some n else weak_parent (h ! j))"
    using Cons.prems(2) by (rule populate_node_weak_parent)
  have "weak_parent (fold populate_node ns ?h1 ! j)
     = (case filter (\<lambda>k. j \<in> set (matching ?h1 k)) ns of
          [] \<Rightarrow> weak_parent (?h1 ! j)
        | m # ms \<Rightarrow> Some (last (m # ms)))"
    using Cons.prems len by (intro Cons.IH) simp_all
  then show ?case
    by (simp add: m step split: list.splits)
qed


lemma Tree_fold: "Tree items = fold populate_node [0..<length items] (map new_Node items)"
  by (simp add: Tree_def populate_children_def fold_create_node)

lemma Tree_length: "length (Tree items) = length items"
  by (simp add: Tree_fold populate_nodes_static)

lemma Tree_static:
  "map node_id (Tree items) = map item_id items"
  "map parent_id (Tree items) = map item_parent_id items"
  "map title (Tree items) = map item_title items"
  by (simp_all add: Tree_fold populate_nodes_static new_Node_def comp_def)

lemma Tree_node_id: "i < length items \<Longrightarrow> node_id (Tree items ! i) = item_id (items ! i)"
  using Tree_static(1)[of items] Tree_length[of items] by (metis nth_map)

lemma Tree_parent_id:
  "i < length items \<Longrightarrow> parent_id (Tree items ! i) = item_parent_id (items ! i)"
  using Tree_static(2)[of items] Tree_length[of items] by (metis nth_map)

lemma matching_new_Node:
  "n < length items \<Longrightarrow>
   matching (map new_Node items) n
     = filter (\<lambda>x. item_parent_id (items ! x) = Some (item_id (items ! n))) [0..<length items]"
  unfolding matching_def by (auto intro!: filter_cong simp: new_Node_def)

lemma children_of_Tree:
  assumes "i < length items"
  shows "children (Tree items ! i)
     = filter (\<lambda>x. item_parent_id (items ! x) = Some (item_id (items ! i))) [0..<length items]"
proof -
  have "children (Tree items ! i)
      = children (map new_Node items ! i) @ matching (map new_Node items) i"
    unfolding Tree_fold using assms by (subst populate_nodes_children) simp_all
  then show ?thesis using assms by (simp add: matching_new_Node new_Node_def)
qed

lemma weak_parent_of_Tree:
  assumes "j < length items"
  shows "weak_parent (Tree items ! j)
     = (case filter (\<lambda>n. item_parent_id (items ! j) = Some (item_id (items ! n)))
               [0..<length items] of
          [] \<Rightarrow> None
        | m # ms \<Rightarrow> Some (last (m # ms)))"
proof -
  have f: "filter (\<lambda>n. j \<in> set (matching (map new_Node items) n)) [0..<length items]
         = filter (\<lambda>n. item_parent_id (items ! j) = Some (item_id (items ! n))) [0..<length items]"
    using assms by (intro filter_cong[OF refl]) (simp add: matching_new_Node)
  have "weak_parent (Tree items ! j)
      = (case filter (\<lambda>n. j \<in> set (matching (map new_Node items) n)) [0..<length items] of
           [] \<Rightarrow> weak_parent (map new_Node items ! j)
         | m # ms \<Rightarrow> Some (last (m # ms)))"
    unfolding Tree_fold using assms by (intro populate_nodes_weak_parent) simp_all
  then show ?thesis using assms by (simp add: f new_Node_def split: list.splits)
qed

text \<open>
  C9: a record whose parent id is the id of no record does not stop the construction
  (no step of it can raise): the arena has one node per record, in input order, with
  the record's id, title and parent id, and the node of that record has no parent.
\<close>

theorem dangling_parent_id_leaves_parent_unset:
  assumes "i < length items" and "item_parent_id (items ! i) = Some p"
    and "p \<notin> set (map item_id items)"
  shows "length (Tree items) = length items \<and>
         map node_id (Tree items) = map item_id items \<and>
         map title (Tree items) = map item_title items \<and>
         map parent_id (Tree items) = map item_parent_id items \<and>
         parent_id (Tree items ! i) = Some p \<and>
         parent (Tree items) i = None"
proof -
  have "filter (\<lambda>n. item_parent_id (items ! i) = Some (item_id (items ! n))) [0..<length items] = []"
    using assms(2,3) by (auto simp: filter_empty_conv)
  then have "weak_parent (Tree items ! i) = None"
    using assms(1) by (simp add: weak_parent_of_Tree)
  then show ?thesis
    using assms(1,2) by (simp add: Tree_length Tree_static Tree_parent_id parent_def)
qed

theorem dangling_parent_id_leaves_parent_unset_witness:
  "(1::nat) < length orphan_items \<and> item_parent_id (orphan_items ! 1) = Some 7 \<and>
   7 \<notin> set (map item_id orphan_items) \<and>
   length (Tree orphan_items) = length orphan_items \<and>
   map node_id (Tree orphan_items) = map item_id orphan_items \<and>
   map title (Tree orphan_items) = map item_title orphan_items \<and>
   map parent_id (Tree orphan_items) = map item_parent_id orphan_items \<and>
   parent_id (Tree orphan_items ! 1) = Some 7 \<and>
   parent (Tree orphan_items) 1 = None"
proof -
  have h1: "(1::nat) < length orphan_items" by (simp add: orphan_items_def)
  have h2: "item_parent_id (orphan_items ! 1) = Some 7" by (simp add: orphan_items_def)
  have h3: "7 \<notin> set (map item_id orphan_items)" by (simp add: orphan_items_def)
  show ?thesis
    using h1 h2 h3 dangling_parent_id_leaves_parent_unset [OF h1 h2 h3] by simp
qed

lemma filter_singleton:
  assumes "distinct xs" and "j \<in> set xs" and "\<forall>x \<in> set xs. P x \<longleftrightarrow> x = j"
  shows "filter P xs = [j]"
  using assms by (induction xs) (auto simp: filter_empty_conv)

lemma count_list_distinct: "distinct xs \<Longrightarrow> x \<in> set xs \<Longrightarrow> count_list xs x = 1"
  by (induction xs) auto

text \<open>
  C2: with unique ids and no dangling parent id, a node whose parent id is \<open>p\<close> has as
  its parent the one node whose id is \<open>p\<close>, and occurs exactly once among that
  node's children.
\<close>

theorem parent_and_children_agree:
  assumes "unique_ids items" and "no_dangling items"
    and "c < length items" and "parent_id (Tree items ! c) = Some p"
  shows "\<exists>j < length (Tree items).
           parent (Tree items) c = Some j \<and> node_id (Tree items ! j) = p \<and>
           (\<forall>k < length (Tree items). node_id (Tree items ! k) = p \<longrightarrow> k = j) \<and>
           count_list (children (Tree items ! j)) c = 1"
proof -
  let ?N = "length items"
  have pc: "item_parent_id (items ! c) = Some p"
    using assms(3,4) by (simp add: Tree_parent_id)
  then have "p \<in> set (map item_id items)"
    using assms(2,3) by (auto simp: no_dangling_def dest!: bspec[where x = "items ! c"])
  then obtain j where j: "j < ?N" "item_id (items ! j) = p"
    by (auto simp: in_set_conv_nth)
  have uniq: "k = j" if "k < ?N" "item_id (items ! k) = p" for k
    using assms(1) that j by (auto simp: unique_ids_def distinct_conv_nth)
  have "filter (\<lambda>n. item_parent_id (items ! c) = Some (item_id (items ! n))) [0..<?N] = [j]"
  proof (rule filter_singleton)
    show "distinct [0..<?N]" by simp
    show "j \<in> set [0..<?N]" using j(1) by simp
    show "\<forall>x \<in> set [0..<?N].
            (item_parent_id (items ! c) = Some (item_id (items ! x))) \<longleftrightarrow> x = j"
      using j(2) uniq by (auto simp: pc)
  qed
  then have par: "weak_parent (Tree items ! c) = Some j"
    using assms(3) by (simp add: weak_parent_of_Tree)
  have "distinct (children (Tree items ! j))" "c \<in> set (children (Tree items ! j))"
    using j assms(3) pc by (simp_all add: children_of_Tree)
  then have cnt: "count_list (children (Tree items ! j)) c = 1"
    by (rule count_list_distinct)
  show ?thesis
  proof (intro exI[of _ j] conjI allI impI)
    show "j < length (Tree items)" using j(1) by (simp add: Tree_length)
    show "parent (Tree items) c = Some j" using par by (simp add: parent_def)
    show "node_id (Tree items ! j) = p" using j by (simp add: Tree_node_id)
    show "k = j" if "k < length (Tree items)" "node_id (Tree items ! k) = p" for k
      using that uniq[of k] by (simp add: Tree_length Tree_node_id)
    show "count_list (children (Tree items ! j)) c = 1" by (rule cnt)
  qed
qed

theorem parent_and_children_agree_witness:
  "unique_ids data \<and> no_dangling data \<and> (4::nat) < length data \<and>
   parent_id (Tree data ! 4) = Some 3 \<and>
   (\<exists>j < length (Tree data).
      parent (Tree data) 4 = Some j \<and> node_id (Tree data ! j) = 3 \<and>
      (\<forall>k < length (Tree data). node_id (Tree data ! k) = 3 \<longrightarrow> k = j) \<and>
      count_list (children (Tree data ! j)) 4 = 1)"
proof -
  have h1: "unique_ids data" by code_simp
  have h2: "no_dangling data" by code_simp
  have h3: "(4::nat) < length data" by code_simp
  have h4: "parent_id (Tree data ! 4) = Some 3" by code_simp
  show ?thesis
    using h1 h2 h3 h4 parent_and_children_agree [OF h1 h2 h3 h4] by simp
qed

section \<open>The queries on the sample\<close>

text \<open>
  In the sample, node \<open>k\<close> of the source (the one with id \<open>k\<close>) is the reference
  \<open>k - 1\<close>. After the loop of the script part the global \<^verbatim>\<open>node\<close> is the last node,
  reference 8; in the imported module the name is unbound.
\<close>

lemma tree_children: "map children tree = [[2], [3], [4], [5], [7, 8], [6], [], [], []]"
  by code_simp

lemma tree_parents:
  "map weak_parent tree = [None, None, Some 0, Some 1, Some 2, Some 3, Some 5, Some 4, Some 4]"
  by code_simp

text \<open>
  C1, as the code has it: enumerating \<^verbatim>\<open>descendants\<close> of node 2 pops from the
  \<^verbatim>\<open>children\<close> lists of nodes 4 and 6 themselves, since only the list of the starting
  node is copied. Both lists are empty afterwards.
\<close>

theorem descendants_empties_children_lists:
  "map children tree = [[2], [3], [4], [5], [7, 8], [6], [], [], []] \<and>
   map_option (\<lambda>(ys, h'). map children h') (descendants tree 1)
     = Some [[2], [3], [4], [], [7, 8], [], [], [], []]"
  by code_simp

text \<open>
  C3, as the code has it: for node 8, a leaf at depth 3, \<^verbatim>\<open>ancestors\<close> is empty, and for
  node 5, at depth 2, it holds three times the global \<^verbatim>\<open>node\<close> and no ancestor.
\<close>

theorem ancestors_not_the_ancestor_chain:
  "ancestors tree (Some 8) 7 = Some (Inr []) \<and>
   ancestors tree (Some 8) 4 = Some (Inr [8, 8, 8])"
  by code_simp

text \<open>
  C4, as the code has it: in the imported module, \<^verbatim>\<open>ancestors\<close> and \<^verbatim>\<open>root\<close> of
  node 1 raise \<^verbatim>\<open>NameError\<close>.
\<close>

theorem ancestors_raises_NameError:
  "ancestors tree None 0 = Some (Inl NameError) \<and> root tree None 0 = Some (Inl NameError)"
  by code_simp

text \<open>
  C6, as the code has it: the first enumeration of \<^verbatim>\<open>descendants\<close> of node 2 yields
  nodes 4, 6 and 7, and a second one, on the arena the first one leaves, node 4 alone.
\<close>

theorem descendants_second_run_differs:
  "(case descendants tree 1 of
      None \<Rightarrow> False
    | Some (ys, h') \<Rightarrow> ys = [3, 5, 6] \<and> map_option fst (descendants h' 1) = Some [3])"
  by code_simp

text \<open>
  C7, as the code has it: node 1 has no parent, and \<^verbatim>\<open>root\<close> of it is whatever the
  global \<^verbatim>\<open>node\<close> is bound to (node 9 after the script's loop, node 1 itself when the
  name is bound to it), or \<^verbatim>\<open>NameError\<close>; it is not the empty list.
\<close>

theorem root_of_a_root_with_children:
  "parent tree 0 = None \<and>
   root tree (Some 8) 0 = Some (Inr (RNode 8)) \<and>
   root tree (Some 0) 0 = Some (Inr (RNode 0)) \<and>
   root tree None 0 = Some (Inl NameError)"
  by code_simp

text \<open>
  C8, as the code has it: \<^verbatim>\<open>ancestors\<close> of node 5 is three times node 9 after the
  script's loop and \<^verbatim>\<open>NameError\<close> in the imported module, and \<^verbatim>\<open>root\<close> of node 8,
  a leaf, is the empty list.
\<close>

theorem sample_ancestors_5_root_8:
  "ancestors tree (Some 8) 4 = Some (Inr [8, 8, 8]) \<and>
   ancestors tree None 4 = Some (Inl NameError) \<and>
   root tree (Some 8) 7 = Some (Inr REmptyList) \<and>
   root tree None 7 = Some (Inr REmptyList)"
  by code_simp

section \<open>Leaves have no ancestors\<close>

text \<open>
  C10: for a node without children, \<^verbatim>\<open>ancestors\<close> returns the empty list, whatever
  the node's depth and whatever the global \<^verbatim>\<open>node\<close> is: the loop condition is false
  at the starting node.
\<close>

theorem ancestors_of_leaf_empty:
  "children (h ! n) = [] \<Longrightarrow> ancestors h g n = Some (Inr [])"
  by (simp add: ancestors_def ancestors_loop.simps)

theorem ancestors_of_leaf_empty_witness:
  "children (tree ! 8) = [] \<and> parent tree 8 = Some 4 \<and> parent tree 4 = Some 2 \<and>
   parent tree 2 = Some 0 \<and> ancestors tree None 8 = Some (Inr [])"
proof -
  have leaf: "children (tree ! 8) = []" by code_simp
  have chain: "parent tree 8 = Some 4 \<and> parent tree 4 = Some 2 \<and> parent tree 2 = Some 0"
    by code_simp
  show ?thesis
    using leaf chain ancestors_of_leaf_empty [OF leaf, of None] by simp
qed

section \<open>The enumeration of descendants on a fresh tree\<close>

declare descendants_loop.simps [simp del]

lemma heap_after_pop_length [simp]: "length (heap_after_pop h r xs) = length h"
  by (cases r) simp_all

lemma heap_after_pop_nth:
  "heap_after_pop h r xs ! i
     = (if r = Field i \<and> i < length h then (h ! i)\<lparr>children := xs\<rparr> else h ! i)"
  by (cases r) (auto simp: nth_update_if)

lemma emptied_length [simp]: "length (emptied S h) = length h"
  by (simp add: emptied_def)

lemma emptied_nth:
  "i < length h \<Longrightarrow> emptied S h ! i = (if i \<in> S then (h ! i)\<lparr>children := []\<rparr> else h ! i)"
  by (simp add: emptied_def)

lemma valid_ref_length: "valid_ref h r \<Longrightarrow> length h' = length h \<Longrightarrow> valid_ref h' r"
  by (cases r) simp_all

lemma contents_after_pop:
  "valid_ref h r \<Longrightarrow> contents (heap_after_pop h r xs) (copy_after_pop cp r xs) r = xs"
  by (cases r) simp_all

lemma contents_emptied:
  "valid_ref h r \<Longrightarrow> r \<notin> Field ` S \<Longrightarrow> contents (emptied S h) cp r = contents h cp r"
  by (cases r) (auto simp: emptied_nth)

lemma copy_after_pop_twice: "copy_after_pop (copy_after_pop cp r xs) r ys = copy_after_pop cp r ys"
  by (cases r) simp_all

lemma copy_after_pop_Field: "copy_after_pop cp (Field x) xs = cp"
  by simp

lemma rep_cong:
  "rep h t \<Longrightarrow> length h' = length h \<Longrightarrow>
   (\<forall>x \<in> set (labels t). children (h' ! x) = children (h ! x)) \<Longrightarrow> rep h' t"
proof (induction t)
  case (Nd c ts)
  have "rep h' t" if "t \<in> set ts" for t
    using that Nd.prems by (intro Nd.IH) auto
  then show ?case using Nd.prems by simp
qed

lemma rep_bound: "rep h t \<Longrightarrow> x \<in> set (labels t) \<Longrightarrow> x < length h"
  by (induction t) auto

lemma skip_empty:
  "x < length h \<Longrightarrow> children (h ! x) = [] \<Longrightarrow>
   descendants_loop h cp (Field x # st) = descendants_loop h cp st"
  by (simp add: descendants_loop.simps)

lemma loop_pop:
  assumes "valid_ref h r" and "contents h cp r = x # xs" and "x < length h" and "r \<noteq> Field x"
  shows "descendants_loop h cp (r # rest)
       = map_option (\<lambda>(ys, hf). (x # ys, hf))
           (descendants_loop (heap_after_pop h r xs) (copy_after_pop cp r xs)
              (Field x # r # rest))"
proof -
  let ?h1 = "heap_after_pop h r xs" and ?cp1 = "copy_after_pop cp r xs"
  have same: "?h1 ! x = h ! x" using assms(4) by (simp add: heap_after_pop_nth)
  have "descendants_loop ?h1 ?cp1
          (if children (?h1 ! x) \<noteq> [] then Field x # r # rest else r # rest)
      = descendants_loop ?h1 ?cp1 (Field x # r # rest)"
    using assms(3) by (simp add: skip_empty)
  then show ?thesis
    using assms(1,2,3) by (simp add: descendants_loop.simps(2)[of h cp r rest])
qed


lemma heap_after_forest:
  assumes "r \<notin> Field ` insert x (A \<union> B)"
  shows "emptied B (heap_after_pop
            (emptied A (heap_after_pop (heap_after_pop h r xs) (Field x) [])) r [])
       = emptied (insert x (A \<union> B)) (heap_after_pop h r [])"
proof (rule nth_equalityI)
  show "length (emptied B (heap_after_pop
            (emptied A (heap_after_pop (heap_after_pop h r xs) (Field x) [])) r []))
      = length (emptied (insert x (A \<union> B)) (heap_after_pop h r []))"
    by simp
next
  fix i
  assume "i < length (emptied B (heap_after_pop
            (emptied A (heap_after_pop (heap_after_pop h r xs) (Field x) [])) r []))"
  then have i: "i < length h" by simp
  show "emptied B (heap_after_pop
            (emptied A (heap_after_pop (heap_after_pop h r xs) (Field x) [])) r []) ! i
      = emptied (insert x (A \<union> B)) (heap_after_pop h r []) ! i"
    using i assms by (auto simp: emptied_nth heap_after_pop_nth nth_update_if)
qed

lemma heap_after_empty_forest:
  assumes "contents h cp r = []" and "valid_ref h r"
  shows "emptied {} (heap_after_pop h r []) = h" and "copy_after_pop cp r [] = cp"
proof -
  show "emptied {} (heap_after_pop h r []) = h"
    using assms by (intro nth_equalityI) (auto simp: emptied_nth heap_after_pop_nth)
  show "copy_after_pop cp r [] = cp"
    using assms by (cases r) simp_all
qed

lemma forest_run_Nil: "forest_run []"
  unfolding forest_run_def
proof (intro allI impI)
  fix h cp r rest
  assume v: "valid_ref h r" and c: "contents h cp r = map rt []"
  have "descendants_loop h cp (r # rest) = descendants_loop h cp rest"
    using v c by (simp add: descendants_loop.simps(2)[of h cp r rest])
  moreover have "map_option (\<lambda>(ys, hf). (ys, hf)) z = z" for z :: "(nat list \<times> Node list) option"
    by (cases z) auto
  ultimately show "descendants_loop h cp (r # rest)
      = map_option (\<lambda>(ys, hf). (concat (map labels []) @ ys, hf))
          (descendants_loop (emptied (set (concat (map labels []))) (heap_after_pop h r []))
             (copy_after_pop cp r []) rest)"
    using heap_after_empty_forest[of h cp r] v c by simp
qed

lemma forest_run_Cons:
  assumes sub: "forest_run (sub u)" and tl: "forest_run us"
  shows "forest_run (u # us)"
  unfolding forest_run_def
proof (intro allI impI)
  fix h cp r rest
  obtain x vs where u: "u = Nd x vs" by (cases u)
  let ?A = "concat (map labels vs)" and ?B = "concat (map labels us)"
  assume v: "valid_ref h r" and c: "contents h cp r = map rt (u # us)"
    and reps: "\<forall>t \<in> set (u # us). rep h t"
    and dist: "distinct (concat (map labels (u # us)))"
    and notin: "r \<notin> Field ` set (concat (map labels (u # us)))"
  let ?h1 = "heap_after_pop h r (map rt us)" and ?cp1 = "copy_after_pop cp r (map rt us)"
  let ?h2 = "emptied (set ?A) (heap_after_pop ?h1 (Field x) [])"
  let ?h3 = "emptied (set ?B) (heap_after_pop ?h2 r [])"
  have x: "x < length h" "children (h ! x) = map rt vs" "\<forall>t \<in> set vs. rep h t"
    using reps u by simp_all
  have rx: "r \<noteq> Field x" "r \<notin> Field ` set ?A" "r \<notin> Field ` set ?B"
    using notin u by auto
  have same1: "?h1 ! i = h ! i" if "r \<noteq> Field i" for i
    using that by (simp add: heap_after_pop_nth)
  \<comment> \<open>the pop of \<open>x\<close>\<close>
  have step1: "descendants_loop h cp (r # rest)
      = map_option (\<lambda>(ys, hf). (x # ys, hf)) (descendants_loop ?h1 ?cp1 (Field x # r # rest))"
    using v c x(1) rx(1) u by (intro loop_pop) simp_all
  \<comment> \<open>the subtrees of \<open>x\<close>\<close>
  have reps1: "rep ?h1 t" if "t \<in> set vs \<or> t \<in> set us" for t
  proof (rule rep_cong[of h])
    show "rep h t" using that x(3) reps by auto
    show "length ?h1 = length h" by simp
    show "\<forall>y \<in> set (labels t). children (?h1 ! y) = children (h ! y)"
    proof
      fix y assume "y \<in> set (labels t)"
      then have "r \<noteq> Field y" using that rx(2,3) by auto
      then show "children (?h1 ! y) = children (h ! y)" by (simp add: same1)
    qed
  qed
  have dA: "distinct ?A" "x \<notin> set ?A" "distinct ?B" "x \<notin> set ?B" "set ?A \<inter> set ?B = {}"
    using dist u by auto
  have step2: "descendants_loop ?h1 ?cp1 (Field x # r # rest)
      = map_option (\<lambda>(ys, hf). (?A @ ys, hf)) (descendants_loop ?h2 ?cp1 (r # rest))"
  proof -
    have "valid_ref ?h1 (Field x)" using x(1) by simp
    moreover have "contents ?h1 ?cp1 (Field x) = map rt vs"
      using x(2) rx(1) by (simp add: same1)
    moreover have "\<forall>t \<in> set vs. rep ?h1 t" using reps1 by simp
    moreover have "Field x \<notin> Field ` set ?A" using dA(2) by auto
    ultimately show ?thesis
      using sub dA(1) unfolding u sub.simps forest_run_def copy_after_pop_Field[symmetric]
      by (metis copy_after_pop.simps(2))
  qed
  \<comment> \<open>the rest of the list\<close>
  have step3: "descendants_loop ?h2 ?cp1 (r # rest)
      = map_option (\<lambda>(ys, hf). (?B @ ys, hf))
          (descendants_loop ?h3 (copy_after_pop ?cp1 r []) rest)"
  proof -
    have len2: "length ?h2 = length h" by simp
    have v2: "valid_ref ?h2 r" using v len2 by (rule valid_ref_length)
    have v1: "valid_ref (heap_after_pop ?h1 (Field x) []) r"
      using v by (rule valid_ref_length) simp
    have "contents ?h2 ?cp1 r = contents (heap_after_pop ?h1 (Field x) []) ?cp1 r"
      using v1 rx(2) by (rule contents_emptied)
    also have "\<dots> = contents ?h1 ?cp1 r"
      using rx(1) by (cases r) (simp_all add: heap_after_pop_nth)
    also have "\<dots> = map rt us" using v by (rule contents_after_pop)
    finally have c2: "contents ?h2 ?cp1 r = map rt us" .
    have reps2: "\<forall>t \<in> set us. rep ?h2 t"
    proof
      fix t assume t: "t \<in> set us"
      show "rep ?h2 t"
      proof (rule rep_cong[of ?h1])
        show "rep ?h1 t" using t reps1 by simp
        show "length ?h2 = length ?h1" by simp
        show "\<forall>y \<in> set (labels t). children (?h2 ! y) = children (?h1 ! y)"
        proof
          fix y assume y: "y \<in> set (labels t)"
          then have "y \<in> set ?B" using t by auto
          then have "y \<noteq> x" "y \<notin> set ?A" using dA(4,5) by auto
          moreover have "y < length h" using y t reps rep_bound by auto
          ultimately show "children (?h2 ! y) = children (?h1 ! y)"
            by (simp add: emptied_nth heap_after_pop_nth)
        qed
      qed
    qed
    show ?thesis
      using tl v2 c2 reps2 dA(3) rx(3) unfolding forest_run_def by blast
  qed
  have h3: "?h3 = emptied (set (concat (map labels (u # us)))) (heap_after_pop h r [])"
    using heap_after_forest[of r x "set ?A" "set ?B" h "map rt us"] notin u by simp
  have cp3: "copy_after_pop ?cp1 r [] = copy_after_pop cp r []"
    by (rule copy_after_pop_twice)
  have comp: "map_option (\<lambda>(ys, hf). (x # ys, hf))
        (map_option (\<lambda>(ys, hf). (?A @ ys, hf)) (map_option (\<lambda>(ys, hf). (?B @ ys, hf)) z))
      = map_option (\<lambda>(ys, hf). (concat (map labels (u # us)) @ ys, hf)) z"
    for z :: "(nat list \<times> Node list) option"
    using u by (cases z) auto
  show "descendants_loop h cp (r # rest)
      = map_option (\<lambda>(ys, hf). (concat (map labels (u # us)) @ ys, hf))
          (descendants_loop (emptied (set (concat (map labels (u # us)))) (heap_after_pop h r []))
             (copy_after_pop cp r []) rest)"
    unfolding step1 step2 step3 comp h3 cp3 ..
qed

lemma forest_run_list: "(\<And>u. u \<in> set us \<Longrightarrow> forest_run (sub u)) \<Longrightarrow> forest_run us"
  by (induction us) (simp_all add: forest_run_Nil forest_run_Cons)

lemma forest_run_sub: "forest_run (sub t)"
  by (induction t) (simp add: forest_run_list)

lemma forest_run_all: "forest_run ts"
  by (rule forest_run_list) (rule forest_run_sub)

lemma forest_runD:
  assumes "valid_ref h r" and "contents h cp r = map rt ts" and "\<forall>t \<in> set ts. rep h t"
    and "distinct (concat (map labels ts))" and "r \<notin> Field ` set (concat (map labels ts))"
  shows "descendants_loop h cp (r # rest)
       = map_option (\<lambda>(ys, hf). (concat (map labels ts) @ ys, hf))
           (descendants_loop (emptied (set (concat (map labels ts))) (heap_after_pop h r []))
              (copy_after_pop cp r []) rest)"
  using forest_run_all[of ts] assms unfolding forest_run_def by blast

lemma descendants_of_rep:
  assumes "rep h (Nd n ts)" and "distinct (labels (Nd n ts))"
  shows "descendants h n
       = Some (concat (map labels ts), emptied (set (concat (map labels ts))) h)"
proof -
  have "descendants_loop h (map rt ts) [Copy]
      = map_option (\<lambda>(ys, hf). (concat (map labels ts) @ ys, hf))
          (descendants_loop (emptied (set (concat (map labels ts))) (heap_after_pop h Copy []))
             (copy_after_pop (map rt ts) Copy []) [])"
    using assms by (intro forest_runD) auto
  then show ?thesis
    using assms(1) by (simp add: descendants_def descendants_loop.simps(1))
qed

lemma labels_reach: "rep h t \<Longrightarrow> set (labels t) = {m. (rt t, m) \<in> (child_rel h)\<^sup>*}"
proof (induction t)
  case (Nd c ts)
  have kids: "(c, b) \<in> child_rel h \<longleftrightarrow> b \<in> rt ` set ts" for b
    using Nd.prems by (auto simp: child_rel_def)
  have IH: "set (labels t) = {m. (rt t, m) \<in> (child_rel h)\<^sup>*}" if "t \<in> set ts" for t
    using that Nd.prems by (intro Nd.IH) auto
  have "{m. (c, m) \<in> (child_rel h)\<^sup>*}
      = insert c {m. \<exists>b. (c, b) \<in> child_rel h \<and> (b, m) \<in> (child_rel h)\<^sup>*}"
    by (auto elim: converse_rtranclE intro: converse_rtrancl_into_rtrancl)
  also have "\<dots> = insert c (\<Union>t \<in> set ts. {m. (rt t, m) \<in> (child_rel h)\<^sup>*})"
    using kids by auto
  also have "\<dots> = insert c (\<Union>t \<in> set ts. set (labels t))"
    using IH by simp
  finally show ?case by simp
qed

lemma siblings_disjoint:
  assumes ac: "acyclic R" and sv: "single_valued (R\<inverse>)"
    and cb: "(c, b) \<in> R" and cb': "(c, b') \<in> R" and ne: "b \<noteq> b'"
    and bm: "(b, m) \<in> R\<^sup>*" and b'm: "(b', m) \<in> R\<^sup>*"
  shows False
proof -
  have up: "(y, c) \<in> R\<^sup>*" if "(y, z) \<in> R\<^sup>+" "(c, z) \<in> R" for y z
    using that(1)
  proof (cases rule: tranclE)
    case base
    then have "y = c" using sv that(2) by (auto simp: single_valued_def)
    then show ?thesis by simp
  next
    case (step w)
    then have "w = c" using sv that(2) by (auto simp: single_valued_def)
    then show ?thesis using step(1) by (simp add: trancl_into_rtrancl)
  qed
  have cyc: False if "(y, c) \<in> R\<^sup>*" "(c, y) \<in> R" for y
    using that ac by (meson acyclic_def rtrancl_into_trancl2)
  have "(m, b) \<in> (R\<inverse>)\<^sup>*" "(m, b') \<in> (R\<inverse>)\<^sup>*"
    using bm b'm by (simp_all add: rtrancl_converse)
  then have "(b, b') \<in> (R\<inverse>)\<^sup>* \<or> (b', b) \<in> (R\<inverse>)\<^sup>*"
    by (rule single_valued_confluent[OF sv])
  then have "(b', b) \<in> R\<^sup>* \<or> (b, b') \<in> R\<^sup>*"
    by (simp add: rtrancl_converse)
  then have "(b', b) \<in> R\<^sup>+ \<or> (b, b') \<in> R\<^sup>+"
    using ne by (auto simp: rtrancl_eq_or_trancl)
  then show False
    using up[of b' b] up[of b b'] cyc[of b'] cyc[of b] cb cb' by blast
qed

lemma distinct_concat_map:
  "distinct cs \<Longrightarrow> (\<forall>b \<in> set cs. distinct (g b)) \<Longrightarrow>
   (\<forall>b \<in> set cs. \<forall>b' \<in> set cs. b \<noteq> b' \<longrightarrow> set (g b) \<inter> set (g b') = {}) \<Longrightarrow>
   distinct (concat (map g cs))"
  by (induction cs) auto

lemma rep_exists:
  assumes wf: "wf ((child_rel h)\<inverse>)" and sv: "single_valued ((child_rel h)\<inverse>)"
    and kids: "\<forall>a < length h. distinct (children (h ! a)) \<and> (\<forall>b \<in> set (children (h ! a)). b < length h)"
  shows "c < length h \<Longrightarrow> \<exists>t. rt t = c \<and> rep h t \<and> distinct (labels t)"
  using wf
proof (induction c rule: wf_induct_rule)
  case (less c)
  let ?R = "child_rel h" and ?cs = "children (h ! c)"
  have ac: "acyclic ?R" using wf wf_acyclic acyclic_converse by blast
  have "\<forall>b \<in> set ?cs. \<exists>t. rt t = b \<and> rep h t \<and> distinct (labels t)"
  proof
    fix b assume b: "b \<in> set ?cs"
    then have "(b, c) \<in> ?R\<inverse>" "b < length h"
      using less.prems kids by (auto simp: child_rel_def)
    then show "\<exists>t. rt t = b \<and> rep h t \<and> distinct (labels t)" by (rule less.IH)
  qed
  then obtain f where f: "\<forall>b \<in> set ?cs. rt (f b) = b \<and> rep h (f b) \<and> distinct (labels (f b))"
    by metis
  let ?t = "Nd c (map f ?cs)"
  have rts: "map rt (map f ?cs) = ?cs"
    using f by (simp add: map_idI)
  have reach: "set (labels (f b)) = {m. (b, m) \<in> ?R\<^sup>*}" if "b \<in> set ?cs" for b
    using that f labels_reach[of h "f b"] by simp
  have edge: "(c, b) \<in> ?R" if "b \<in> set ?cs" for b
    using that less.prems by (simp add: child_rel_def)
  have "rep h ?t" using less.prems rts f by simp
  moreover have "distinct (labels ?t)"
  proof -
    have "c \<notin> set (labels (f b))" if "b \<in> set ?cs" for b
    proof
      assume "c \<in> set (labels (f b))"
      then have "(b, c) \<in> ?R\<^sup>*" using reach[OF that] by simp
      then have "(c, c) \<in> ?R\<^sup>+" using edge[OF that] by (rule rtrancl_into_trancl2[rotated])
      then show False using ac by (simp add: acyclic_def)
    qed
    moreover have "distinct (concat (map (\<lambda>b. labels (f b)) ?cs))"
    proof (rule distinct_concat_map)
      show "distinct ?cs" using kids less.prems by simp
      show "\<forall>b \<in> set ?cs. distinct (labels (f b))" using f by simp
      show "\<forall>b \<in> set ?cs. \<forall>b' \<in> set ?cs. b \<noteq> b' \<longrightarrow>
              set (labels (f b)) \<inter> set (labels (f b')) = {}"
      proof (intro ballI impI)
        fix b b' assume bb: "b \<in> set ?cs" "b' \<in> set ?cs" "b \<noteq> b'"
        show "set (labels (f b)) \<inter> set (labels (f b')) = {}"
        proof (rule ccontr)
          assume "set (labels (f b)) \<inter> set (labels (f b')) \<noteq> {}"
          then obtain m where "(b, m) \<in> ?R\<^sup>*" "(b', m) \<in> ?R\<^sup>*"
            using reach[OF bb(1)] reach[OF bb(2)] by auto
          then show False
            using siblings_disjoint[OF ac sv edge[OF bb(1)] edge[OF bb(2)] bb(3)] by blast
        qed
      qed
    qed
    ultimately show ?thesis by (simp add: comp_def)
  qed
  ultimately show ?case by (intro exI[of _ ?t]) simp
qed

lemma find_by_id:
  assumes "unique_ids items" and "a < length items"
  shows "find (\<lambda>r. item_id r = item_id (items ! a)) items = Some (items ! a)"
proof -
  have "i = a" if "i < length items" "item_id (items ! i) = item_id (items ! a)" for i
    using that assms by (auto simp: unique_ids_def distinct_conv_nth)
  then have "\<forall>j < a. item_id (items ! j) \<noteq> item_id (items ! a)"
    using assms(2) by (metis less_trans nat_neq_iff)
  then show ?thesis
    using assms(2) unfolding find_Some_iff by (intro exI[of _ a]) simp
qed

lemma child_rel_Tree:
  "(a, b) \<in> child_rel (Tree items) \<longleftrightarrow>
     a < length items \<and> b < length items \<and>
     item_parent_id (items ! b) = Some (item_id (items ! a))"
  by (auto simp: child_rel_def Tree_length children_of_Tree)

lemma climbs_child:
  assumes "unique_ids items" and "(a, b) \<in> child_rel (Tree items)"
  shows "climbs items k (item_parent_id (items ! b))
         \<longleftrightarrow> (\<exists>k'. k = Suc k' \<and> climbs items k' (item_parent_id (items ! a)))"
proof -
  have ab: "a < length items" "item_parent_id (items ! b) = Some (item_id (items ! a))"
    using assms(2) by (simp_all add: child_rel_Tree)
  show ?thesis
    using find_by_id[OF assms(1) ab(1)] ab(2) by (cases k) simp_all
qed

lemma wf_child_rel:
  assumes "well_formed items"
  shows "wf ((child_rel (Tree items))\<inverse>)"
proof -
  let ?N = "length items"
  define m where "m j = (LEAST k. climbs items k (item_parent_id (items ! j)))" for j
  have u: "unique_ids items" using assms by (simp add: well_formed_def)
  have top: "climbs items ?N (item_parent_id (items ! j))" if "j < ?N" for j
    using assms that by (simp add: well_formed_def)
  have m_ok: "climbs items (m j) (item_parent_id (items ! j))" if "j < ?N" for j
    unfolding m_def using top[OF that] by (rule LeastI)
  have m_le: "m j \<le> k" if "climbs items k (item_parent_id (items ! j))" for j k
    unfolding m_def using that by (rule Least_le)
  have step: "m b = Suc (m a) \<and> m b \<le> ?N" if edge: "(a, b) \<in> child_rel (Tree items)" for a b
  proof -
    have ab: "a < ?N" "b < ?N" using edge by (simp_all add: child_rel_Tree)
    have "climbs items (Suc (m a)) (item_parent_id (items ! b))"
      using climbs_child[OF u edge] m_ok[OF ab(1)] by simp
    then have le: "m b \<le> Suc (m a)" by (rule m_le)
    obtain k' where k': "m b = Suc k'" "climbs items k' (item_parent_id (items ! a))"
      using climbs_child[OF u edge, of "m b"] m_ok[OF ab(2)] by auto
    have ge: "Suc (m a) \<le> m b" using m_le[OF k'(2)] k'(1) by simp
    have "m b \<le> ?N" using top[OF ab(2)] by (rule m_le)
    then show ?thesis using le ge by simp
  qed
  have "(child_rel (Tree items))\<inverse> \<subseteq> measure (\<lambda>j. ?N - m j)"
    using step by fastforce
  then show ?thesis by (rule wf_subset[OF wf_measure])
qed

lemma single_valued_child_rel:
  assumes "unique_ids items"
  shows "single_valued ((child_rel (Tree items))\<inverse>)"
proof (rule single_valuedI)
  fix b a a'
  assume "(b, a) \<in> (child_rel (Tree items))\<inverse>" "(b, a') \<in> (child_rel (Tree items))\<inverse>"
  then have "a < length items" "a' < length items" "item_id (items ! a) = item_id (items ! a')"
    by (auto simp: child_rel_Tree)
  then show "a = a'"
    using assms by (auto simp: unique_ids_def distinct_conv_nth)
qed

lemma Tree_children_ok:
  "\<forall>a < length (Tree items).
     distinct (children (Tree items ! a)) \<and>
     (\<forall>b \<in> set (children (Tree items ! a)). b < length (Tree items))"
  by (simp add: Tree_length children_of_Tree)

text \<open>
  C5: on the tree as constructed from well-formed records, the enumeration of
  \<^verbatim>\<open>descendants(n)\<close> ends, and yields each node that is reachable from \<open>n\<close> over
  one or more child edges exactly once, and never \<open>n\<close>.
\<close>

theorem descendants_enumerates_subtree:
  assumes "well_formed items" and "n < length items"
  shows "\<exists>ys h'. descendants (Tree items) n = Some (ys, h') \<and> distinct ys \<and>
           set ys = {m. (n, m) \<in> (child_rel (Tree items))\<^sup>+} \<and> n \<notin> set ys"
proof -
  let ?H = "Tree items" and ?R = "child_rel (Tree items)"
  have u: "unique_ids items" using assms(1) by (simp add: well_formed_def)
  have n: "n < length ?H" using assms(2) by (simp add: Tree_length)
  obtain t where t: "rt t = n" "rep ?H t" "distinct (labels t)"
    using rep_exists[OF wf_child_rel[OF assms(1)] single_valued_child_rel[OF u]
            Tree_children_ok n] by blast
  obtain ts where ts: "t = Nd n ts" using t(1) by (cases t) simp
  let ?ys = "concat (map labels ts)"
  have run: "descendants ?H n = Some (?ys, emptied (set ?ys) ?H)"
    using t(2,3) unfolding ts by (rule descendants_of_rep)
  have kids: "(n, b) \<in> ?R \<longleftrightarrow> b \<in> rt ` set ts" for b
    using t(2) unfolding ts by (auto simp: child_rel_def)
  have "set ?ys = (\<Union>u \<in> set ts. {m. (rt u, m) \<in> ?R\<^sup>*})"
  proof -
    have "set (labels u) = {m. (rt u, m) \<in> ?R\<^sup>*}" if "u \<in> set ts" for u
      using that t(2) unfolding ts by (intro labels_reach) simp
    then show ?thesis by simp
  qed
  also have "\<dots> = {m. \<exists>b. (n, b) \<in> ?R \<and> (b, m) \<in> ?R\<^sup>*}"
    using kids by auto
  also have "\<dots> = {m. (n, m) \<in> ?R\<^sup>+}"
    by (auto simp: trancl_unfold_left)
  finally have reach: "set ?ys = {m. (n, m) \<in> ?R\<^sup>+}" .
  have "distinct ?ys" "n \<notin> set ?ys"
    using t(3) unfolding ts by simp_all
  then show ?thesis using run reach by blast
qed

theorem descendants_enumerates_subtree_witness:
  "well_formed data \<and> (1::nat) < length data \<and>
   (\<exists>ys h'. descendants (Tree data) 1 = Some (ys, h') \<and> distinct ys \<and>
      set ys = {m. (1, m) \<in> (child_rel (Tree data))\<^sup>+} \<and> 1 \<notin> set ys)"
proof -
  have h1: "well_formed data" by code_simp
  have h2: "(1::nat) < length data" by code_simp
  show ?thesis
    using h1 h2 descendants_enumerates_subtree [OF h1 h2] by simp
qed

end
